theory Spec2Isabelle
  imports Main "HOL-Library.Sublist"
begin

section \<open>Python values used by socialscraper.py\<close>

text \<open>
  Exceptions that can escape the functions of socialscraper.py. \<open>ValueError\<close> is what
  \<open>urllib.parse.urlparse\<close> and \<open>urljoin\<close> raise on a malformed network location
  ("Invalid IPv6 URL"); \<open>KeyError\<close> is a failed dictionary subscript or a \<open>pop\<close> from
  an empty set.
\<close>

datatype pyerr = ValueError | KeyError

text \<open>Sequencing of computations that may raise: the first exception propagates.\<close>

definition ebind :: "pyerr + 'a \<Rightarrow> ('a \<Rightarrow> pyerr + 'b) \<Rightarrow> pyerr + 'b" where
  "ebind m f = (case m of Inl e \<Rightarrow> Inl e | Inr x \<Rightarrow> f x)"

subsection \<open>Strings\<close>

text \<open>
  A string is a list of characters, each standing for a code point. The operations on
  strings that the program performs itself (equality, \<open>in\<close>, \<open>replace\<close>) compare code
  points one by one and are written out here. The operations that depend on the Unicode
  tables or on the grammar of URLs (\<open>str.lower\<close>, \<open>urlparse\<close>, \<open>urljoin\<close>) belong to
  the libraries and are parameters of the model (see the environment below).
\<close>

text \<open>\<open>s.startswith(p)\<close>.\<close>

fun startswith :: "string \<Rightarrow> string \<Rightarrow> bool" where
  "startswith s [] = True"
| "startswith [] (p # ps) = False"
| "startswith (c # cs) (p # ps) = (c = p \<and> startswith cs ps)"

text \<open>The substring test \<open>needle in haystack\<close> on strings.\<close>

fun str_in :: "string \<Rightarrow> string \<Rightarrow> bool" where
  "str_in needle [] = (needle = [])"
| "str_in needle (c # cs) = (startswith (c # cs) needle \<or> str_in needle cs)"

text \<open>
  \<open>s.replace(old, new)\<close>: the occurrences of \<open>old\<close> are replaced from left to right,
  without overlap. With an empty \<open>old\<close>, Python puts \<open>new\<close> before every character and
  at the end.
\<close>

function str_replace :: "string \<Rightarrow> string \<Rightarrow> string \<Rightarrow> string" where
  "str_replace [] old new = (if old = [] then new else [])"
| "str_replace (c # cs) old new =
     (if old = [] then new @ c # str_replace cs old new
      else if startswith (c # cs) old
           then new @ str_replace (drop (length old) (c # cs)) old new
           else c # str_replace cs old new)"
  by pat_completeness auto
termination
  by (relation "measure (\<lambda>(s, old, new). length s)") auto

section \<open>The world outside the program\<close>

text \<open>
  What \<open>session.get\<close> gives for a URL: nothing when the request raises (timeout, DNS
  failure, connection refused, a URL the client rejects), otherwise a response with its
  status and its body, where reading the body may raise as well.
\<close>

record response =
  resp_status :: nat
  resp_text :: "string option"

text \<open>
  The variables of \<open>crawl_site\<close>. Python's sets \<open>to_visit\<close> and \<open>links\<close> are kept as
  duplicate-free lists; the order in which a set hands out its elements is not fixed by
  the language and is left to the environment below. The last three fields are not
  variables of the program: they log, in order, the URLs passed to \<open>fetch\<close>, the calls of
  \<open>extract_links_from_html\<close> (the page that was fetched and the base URL passed), and
  the assignments to \<open>social_links\<close> (key and value).
\<close>

record crawl_state =
  visited :: "string set"
  to_visit :: "string list"
  social_links :: "string \<rightharpoonup> string"
  pages_crawled :: nat
  status_code :: nat
  fetch_log :: "string list"
  extract_log :: "(string \<times> string) list"
  write_log :: "(string \<times> string) list"

text \<open>
  The environment of one crawl. None of it is code of the program, so all of it is a
  parameter: what is proved for every environment holds whatever the libraries and the
  web do.
  \<^item> \<open>http_get\<close>: the web, as seen by \<open>session.get\<close>;
  \<^item> \<open>find_all_a_href\<close>: the \<open>href\<close> values of \<open>soup.find_all("a", href=True)\<close>, in
    document order;
  \<^item> \<open>urljoin\<close>: \<open>urllib.parse.urljoin\<close>, which may raise \<open>ValueError\<close>;
  \<^item> \<open>urlparse\<close>: \<open>urllib.parse.urlparse\<close>, which may raise \<open>ValueError\<close>; of its
    result the program reads the network location only, which is kept with the scheme:
    \<open>(scheme, netloc)\<close>;
  \<^item> \<open>lower\<close>: \<open>str.lower\<close>;
  \<^item> \<open>pop_choice\<close>: which element \<open>to_visit.pop()\<close> removes, as an index (taken modulo
    the size of the set) that may depend on the whole state;
  \<^item> \<open>set_iter\<close>: the order in which \<open>for link in links\<close> runs through the set.
\<close>

record env =
  http_get :: "string \<Rightarrow> response option"
  find_all_a_href :: "string \<Rightarrow> string list"
  urljoin :: "string \<Rightarrow> string \<Rightarrow> pyerr + string"
  urlparse :: "string \<Rightarrow> pyerr + (string \<times> string)"
  lower :: "string \<Rightarrow> string"
  pop_choice :: "crawl_state \<Rightarrow> nat"
  set_iter :: "string list \<Rightarrow> string list"

definition netloc :: "string \<times> string \<Rightarrow> string" where
  "netloc parsed = snd parsed"

definition scheme :: "string \<times> string \<Rightarrow> string" where
  "scheme parsed = fst parsed"

section \<open>The social classifier\<close>

text \<open>
  \<^verbatim>\<open>
  SOCIAL_DOMAINS = {
      "facebook.com": "Facebook",
      "instagram.com": "Instagram",
  }
  \<close>
  A dictionary literal iterates in the order it is written, so it is kept as the list of
  its items.
\<close>

definition SOCIAL_DOMAINS :: "(string \<times> string) list" where
  "SOCIAL_DOMAINS = [(''facebook.com'', ''Facebook''), (''instagram.com'', ''Instagram'')]"

text \<open>
  \<^verbatim>\<open>
  for social_domain, platform in SOCIAL_DOMAINS.items():
      if social_domain in domain:
          return platform
  return None
  \<close>
\<close>

fun first_platform :: "(string \<times> string) list \<Rightarrow> string \<Rightarrow> string option" where
  "first_platform [] domain = None"
| "first_platform ((social_domain, platform) # items) domain =
     (if str_in social_domain domain then Some platform
      else first_platform items domain)"

text \<open>
  \<^verbatim>\<open>
  def is_social_link(url):
      parsed = urlparse(url.lower())
      domain = parsed.netloc.replace("www.", "")
      ...
  \<close>
  There is no exception handler in the function: what \<open>urlparse\<close> raises, it raises.
\<close>

definition is_social_link :: "env \<Rightarrow> string \<Rightarrow> pyerr + string option" where
  "is_social_link env url =
     ebind (urlparse env (lower env url))
       (\<lambda>parsed.
          let domain = str_replace (netloc parsed) ''www.'' ''''
          in Inr (first_platform SOCIAL_DOMAINS domain))"

section \<open>The site crawler\<close>

subsection \<open>fetch\<close>

text \<open>
  \<^verbatim>\<open>
  async def fetch(session, url):
      try:
          async with session.get(url, headers=HEADERS, timeout=10, ssl=False) as response:
              status = response.status
              if status == 200:
                  return await response.text(), status
              return "", status
      except Exception as e:
          return "", 0
  \<close>
\<close>

definition fetch :: "env \<Rightarrow> string \<Rightarrow> string \<times> nat" where
  "fetch env url =
     (case http_get env url of
        None \<Rightarrow> ([], 0)
      | Some response \<Rightarrow>
          if resp_status response = 200 then
            (case resp_text response of
               None \<Rightarrow> ([], 0)
             | Some body \<Rightarrow> (body, resp_status response))
          else ([], resp_status response))"

subsection \<open>Sets and dictionaries\<close>

definition set_add :: "string \<Rightarrow> string list \<Rightarrow> string list" where
  "set_add x xs = (if x \<in> set xs then xs else xs @ [x])"

text \<open>\<open>set.pop()\<close> raises \<open>KeyError\<close> on the empty set.\<close>

definition set_pop :: "nat \<Rightarrow> string list \<Rightarrow> pyerr + (string \<times> string list)" where
  "set_pop k xs =
     (if xs = [] then Inl KeyError
      else let i = k mod length xs in Inr (xs ! i, take i xs @ drop (Suc i) xs))"

definition dict_get :: "(string \<rightharpoonup> string) \<Rightarrow> string \<Rightarrow> pyerr + string" where
  "dict_get d k = (case d k of None \<Rightarrow> Inl KeyError | Some v \<Rightarrow> Inr v)"

subsection \<open>extract_links_from_html\<close>

text \<open>
  \<^verbatim>\<open>
  def extract_links_from_html(html, base_url):
      soup = BeautifulSoup(html, "html.parser")
      links = set()
      for a in soup.find_all("a", href=True):
          href = urljoin(base_url, a["href"])
          links.add(href)
      return links
  \<close>
\<close>

fun join_hrefs ::
  "env \<Rightarrow> string \<Rightarrow> string list \<Rightarrow> string list \<Rightarrow> pyerr + string list" where
  "join_hrefs env base_url [] links = Inr links"
| "join_hrefs env base_url (a # as) links =
     ebind (urljoin env base_url a)
       (\<lambda>href. join_hrefs env base_url as (set_add href links))"

definition extract_links_from_html :: "env \<Rightarrow> string \<Rightarrow> string \<Rightarrow> pyerr + string list" where
  "extract_links_from_html env html base_url =
     join_hrefs env base_url (find_all_a_href env html) []"

subsection \<open>crawl_site\<close>

definition max_pages :: nat where
  "max_pages = 3"

definition init_state :: "string \<Rightarrow> crawl_state" where
  "init_state base_url =
     \<lparr> visited = {},
       to_visit = [base_url],
       social_links = [''Facebook'' \<mapsto> ''Not Found'', ''Instagram'' \<mapsto> ''Not Found''],
       pages_crawled = 0,
       status_code = 0,
       fetch_log = [],
       extract_log = [],
       write_log = [] \<rparr>"

text \<open>
  \<^verbatim>\<open>
  if social_links["Facebook"] != "Not Found" and social_links["Instagram"] != "Not Found":
      break
  \<close>
\<close>

definition both_found :: "crawl_state \<Rightarrow> pyerr + bool" where
  "both_found s =
     ebind (dict_get (social_links s) ''Facebook'')
       (\<lambda>fb. if fb \<noteq> ''Not Found''
              then ebind (dict_get (social_links s) ''Instagram'')
                     (\<lambda>ig. Inr (ig \<noteq> ''Not Found''))
              else Inr False)"

text \<open>
  \<^verbatim>\<open>
  platform = is_social_link(link)
  if platform:
      # Only update if we haven't found this platform yet
      if social_links[platform] == "Not Found":
          social_links[platform] = link
  \<close>
\<close>

definition record_social :: "env \<Rightarrow> string \<Rightarrow> crawl_state \<Rightarrow> pyerr + crawl_state" where
  "record_social env link s =
     ebind (is_social_link env link)
       (\<lambda>platform.
          case platform of
            None \<Rightarrow> Inr s
          | Some p \<Rightarrow>
              if p = [] then Inr s
              else ebind (dict_get (social_links s) p)
                     (\<lambda>found.
                        if found = ''Not Found''
                        then Inr (s\<lparr> social_links := (social_links s)(p \<mapsto> link),
                                     write_log := write_log s @ [(p, link)] \<rparr>)
                        else Inr s))"

text \<open>
  \<^verbatim>\<open>
  try:
      link_domain = urlparse(link).netloc
      if base_domain in link_domain and link not in visited and len(to_visit) < 10:
          to_visit.add(link)
  except:
      continue
  \<close>
\<close>

definition enqueue_internal :: "env \<Rightarrow> string \<Rightarrow> string \<Rightarrow> crawl_state \<Rightarrow> crawl_state" where
  "enqueue_internal env base_domain link s =
     (case urlparse env link of
        Inl e \<Rightarrow> s
      | Inr parsed \<Rightarrow>
          if str_in base_domain (netloc parsed) \<and> link \<notin> visited s
             \<and> length (to_visit s) < 10
          then s\<lparr> to_visit := set_add link (to_visit s) \<rparr>
          else s)"

definition link_body :: "env \<Rightarrow> string \<Rightarrow> string \<Rightarrow> crawl_state \<Rightarrow> pyerr + crawl_state" where
  "link_body env base_domain link s =
     ebind (record_social env link s)
       (\<lambda>s1. Inr (enqueue_internal env base_domain link s1))"

fun for_links :: "env \<Rightarrow> string \<Rightarrow> string list \<Rightarrow> crawl_state \<Rightarrow> pyerr + crawl_state" where
  "for_links env base_domain [] s = Inr s"
| "for_links env base_domain (link # links) s =
     ebind (link_body env base_domain link s) (for_links env base_domain links)"

text \<open>
  Lines 76 to 85 of one iteration: pop a URL, skip it when it was visited, otherwise mark
  it, count it and fetch it. The result is the state and, unless the iteration ended with
  \<open>continue\<close> at the visited test, the URL and the HTML that was fetched.
\<close>

definition visit_next ::
  "env \<Rightarrow> crawl_state \<Rightarrow> pyerr + (crawl_state \<times> (string \<times> string) option)" where
  "visit_next env s =
     ebind (set_pop (pop_choice env s) (to_visit s))
       (\<lambda>(next_url, rest).
          let s1 = s\<lparr> to_visit := rest \<rparr> in
          if next_url \<in> visited s1 then Inr (s1, None)
          else
            let s2 = s1\<lparr> visited := insert next_url (visited s1),
                         pages_crawled := pages_crawled s1 + 1,
                         fetch_log := fetch_log s1 @ [next_url] \<rparr>;
                (html, status) = fetch env next_url;
                s3 = (if pages_crawled s2 = 1 then s2\<lparr> status_code := status \<rparr> else s2)
            in Inr (s3, Some (next_url, html)))"

text \<open>
  The rest of the iteration: nothing when the HTML is empty, otherwise the links of the
  page, extracted with \<open>base_url\<close> (line 90), are run through.
\<close>

definition scan_page ::
  "env \<Rightarrow> string \<Rightarrow> string \<Rightarrow> crawl_state \<Rightarrow> string \<Rightarrow> string \<Rightarrow> pyerr + crawl_state" where
  "scan_page env base_url base_domain s next_url html =
     (if html = [] then Inr s
      else ebind (extract_links_from_html env html base_url)
             (\<lambda>links. for_links env base_domain (set_iter env links)
                         (s\<lparr> extract_log := extract_log s @ [(next_url, base_url)] \<rparr>)))"

definition loop_body :: "env \<Rightarrow> string \<Rightarrow> string \<Rightarrow> crawl_state \<Rightarrow> pyerr + crawl_state" where
  "loop_body env base_url base_domain s =
     ebind (visit_next env s)
       (\<lambda>(s3, page).
          case page of
            None \<Rightarrow> Inr s3
          | Some (next_url, html) \<Rightarrow> scan_page env base_url base_domain s3 next_url html)"

text \<open>\<open>while to_visit and pages_crawled < max_pages\<close>\<close>

definition loop_cond :: "crawl_state \<Rightarrow> bool" where
  "loop_cond s = (to_visit s \<noteq> [] \<and> pages_crawled s < max_pages)"

text \<open>
  The loop of \<open>crawl_site\<close>. It ends: an iteration either counts a page, of which there
  are at most \<open>max_pages\<close>, or only takes a URL out of \<open>to_visit\<close>.
\<close>

function crawl_loop :: "env \<Rightarrow> string \<Rightarrow> string \<Rightarrow> crawl_state \<Rightarrow> pyerr + crawl_state" where
  "crawl_loop env base_url base_domain s =
     (if loop_cond s then
        (case both_found s of
           Inl e \<Rightarrow> Inl e
         | Inr found \<Rightarrow>
             if found then Inr s
             else (case loop_body env base_url base_domain s of
                     Inl e \<Rightarrow> Inl e
                   | Inr s' \<Rightarrow> crawl_loop env base_url base_domain s'))
      else Inr s)"
  by pat_completeness auto
termination
proof (relation "measures [\<lambda>(env, b, bd, s). max_pages - pages_crawled s,
                           \<lambda>(env, b, bd, s). length (to_visit s)]")
  show "wf (measures [\<lambda>(env, b, bd, s). max_pages - pages_crawled s,
                      \<lambda>(env :: env, b :: string, bd :: string, s). length (to_visit s)])"
    by simp
next
  fix env base_url base_domain s found s'
  assume cond: "loop_cond s"
    and body: "loop_body env base_url base_domain s = Inr s'"
  have link: "pages_crawled t' = pages_crawled t"
    if "link_body env base_domain l t = Inr t'" for l t t'
    using that
    by (auto simp: link_body_def record_social_def enqueue_internal_def ebind_def dict_get_def
        split: sum.splits option.splits if_splits)
  have links: "for_links env base_domain ls t = Inr t' \<Longrightarrow> pages_crawled t' = pages_crawled t"
    for ls t t'
  proof (induction ls arbitrary: t)
    case Nil
    then show ?case by simp
  next
    case (Cons l ls)
    then show ?case by (auto simp: ebind_def split: sum.splits dest: link)
  qed
  have scan: "pages_crawled t' = pages_crawled t"
    if "scan_page env base_url base_domain t u html = Inr t'" for t t' u html
    using that
    by (auto simp: scan_page_def ebind_def split: sum.splits if_splits dest: links)
  have pop: "length rest < length xs" if "set_pop k xs = Inr (x, rest)" for k xs x rest
  proof -
    from that have ne: "xs \<noteq> []" by (auto simp: set_pop_def split: if_splits)
    define i where "i = k mod length xs"
    have i: "i < length xs" using ne by (simp add: i_def)
    from that ne have "rest = take i xs @ drop (Suc i) xs"
      by (simp add: set_pop_def Let_def i_def)
    then have "length rest = i + (length xs - Suc i)" using i by simp
    with i show ?thesis by arith
  qed
  have visit: "(page = None \<longrightarrow> pages_crawled s3 = pages_crawled s
                   \<and> length (to_visit s3) < length (to_visit s))
             \<and> (page \<noteq> None \<longrightarrow> pages_crawled s3 = Suc (pages_crawled s))"
    if "visit_next env s = Inr (s3, page)" for s3 page
    using that
    by (auto simp: visit_next_def ebind_def Let_def
        split: sum.splits if_splits prod.splits dest!: pop)
  have "pages_crawled s' = Suc (pages_crawled s)
        \<or> (pages_crawled s' = pages_crawled s \<and> length (to_visit s') < length (to_visit s))"
    using body
    by (auto simp: loop_body_def ebind_def split: sum.splits option.splits prod.splits
        dest!: visit scan)
  with cond
  show "((env, base_url, base_domain, s'), env, base_url, base_domain, s)
          \<in> measures [\<lambda>(env, b, bd, s). max_pages - pages_crawled s,
                       \<lambda>(env, b, bd, s). length (to_visit s)]"
    by (auto simp: loop_cond_def)
qed

text \<open>
  \<open>crawl_run\<close> is \<open>crawl_site\<close> up to the end of its loop: \<open>base_domain\<close> is computed at
  line 64, outside any exception handler, then the loop runs from the initial state.
\<close>

definition crawl_run :: "env \<Rightarrow> string \<Rightarrow> pyerr + crawl_state" where
  "crawl_run env base_url =
     ebind (urlparse env base_url)
       (\<lambda>parsed. crawl_loop env base_url (netloc parsed) (init_state base_url))"

text \<open>
  The dictionary that \<open>crawl_site\<close> returns, without \<open>Duration (s)\<close> and \<open>Timestamp\<close>,
  which are read from the wall clock.
\<close>

record crawl_result =
  Business_Name :: string
  Website :: string
  Facebook :: string
  Instagram :: string
  Status_Code :: nat
  Pages_Crawled :: nat

definition make_result :: "string \<Rightarrow> string \<Rightarrow> crawl_state \<Rightarrow> pyerr + crawl_result" where
  "make_result biz_name base_url s =
     ebind (dict_get (social_links s) ''Facebook'')
       (\<lambda>fb. ebind (dict_get (social_links s) ''Instagram'')
          (\<lambda>ig. Inr \<lparr> Business_Name = biz_name,
                       Website = base_url,
                       Facebook = fb,
                       Instagram = ig,
                       Status_Code = status_code s,
                       Pages_Crawled = pages_crawled s \<rparr>))"

definition crawl_site :: "env \<Rightarrow> string \<Rightarrow> string \<Rightarrow> pyerr + crawl_result" where
  "crawl_site env base_url biz_name =
     ebind (crawl_run env base_url) (make_result biz_name base_url)"

subsection \<open>The states of a crawl\<close>

text \<open>
  The states in which the loop condition of \<open>crawl_site\<close> is evaluated, for a root URL
  and a base domain: the initial state, and the state after every completed iteration.
\<close>

inductive loop_head :: "env \<Rightarrow> string \<Rightarrow> string \<Rightarrow> crawl_state \<Rightarrow> bool"
  for env base_url base_domain where
  head_init: "loop_head env base_url base_domain (init_state base_url)"
| head_next: "loop_head env base_url base_domain s \<Longrightarrow> loop_cond s \<Longrightarrow>
              both_found s = Inr False \<Longrightarrow> loop_body env base_url base_domain s = Inr s' \<Longrightarrow>
              loop_head env base_url base_domain s'"

text \<open>
  Every state the crawl goes through: the states at the head of the loop, the state after
  the fetch of an iteration, and the state after each link of the page.
\<close>

inductive crawl_point :: "env \<Rightarrow> string \<Rightarrow> string \<Rightarrow> crawl_state \<Rightarrow> bool"
  for env base_url base_domain where
  at_head: "loop_head env base_url base_domain s \<Longrightarrow> crawl_point env base_url base_domain s"
| after_visit: "loop_head env base_url base_domain s \<Longrightarrow> loop_cond s \<Longrightarrow>
                both_found s = Inr False \<Longrightarrow> visit_next env s = Inr (s3, page) \<Longrightarrow>
                crawl_point env base_url base_domain s3"
| after_links: "loop_head env base_url base_domain s \<Longrightarrow> loop_cond s \<Longrightarrow>
                both_found s = Inr False \<Longrightarrow>
                visit_next env s = Inr (s3, Some (next_url, html)) \<Longrightarrow> html \<noteq> [] \<Longrightarrow>
                extract_links_from_html env html base_url = Inr links \<Longrightarrow>
                for_links env base_domain (take n (set_iter env links))
                  (s3\<lparr> extract_log := extract_log s3 @ [(next_url, base_url)] \<rparr>) = Inr t \<Longrightarrow>
                crawl_point env base_url base_domain t"

text \<open>What holds of the sets and of the log of fetches in every state of a crawl.\<close>

definition frontier_inv :: "crawl_state \<Rightarrow> bool" where
  "frontier_inv s =
     (distinct (to_visit s) \<and> set (to_visit s) \<inter> visited s = {}
      \<and> set (fetch_log s) = visited s \<and> distinct (fetch_log s)
      \<and> length (fetch_log s) = pages_crawled s \<and> pages_crawled s \<le> max_pages)"

text \<open>What holds of the findings: the two keys, and values that classify as their key.\<close>

definition findings_inv :: "env \<Rightarrow> crawl_state \<Rightarrow> bool" where
  "findings_inv env s =
     (dom (social_links s) = {''Facebook'', ''Instagram''}
      \<and> (\<forall>k v. social_links s k = Some v \<longrightarrow>
             v = ''Not Found'' \<or> is_social_link env v = Inr (Some k)))"

text \<open>The log of assignments holds the findings that are set, each key once.\<close>

definition writes_inv :: "crawl_state \<Rightarrow> bool" where
  "writes_inv s =
     (distinct (map fst (write_log s))
      \<and> (\<forall>k v. (k, v) \<in> set (write_log s) \<longleftrightarrow>
             social_links s k = Some v \<and> v \<noteq> ''Not Found''))"

text \<open>
  What holds of the other logs: the extractor was called for fetched pages, with the root
  URL as base; the first fetch is the root URL and the status kept is its status; before
  the first fetch nothing has changed.
\<close>

definition log_inv :: "env \<Rightarrow> string \<Rightarrow> crawl_state \<Rightarrow> bool" where
  "log_inv env base_url s =
     ((\<forall>page base. (page, base) \<in> set (extract_log s) \<longrightarrow>
          base = base_url \<and> page \<in> set (fetch_log s))
      \<and> (fetch_log s \<noteq> [] \<longrightarrow>
            hd (fetch_log s) = base_url \<and> status_code s = snd (fetch env base_url))
      \<and> (fetch_log s = [] \<longrightarrow> s = init_state base_url))"

section \<open>The orchestrator\<close>

text \<open>
  \<^verbatim>\<open>
  async def process_websites(businesses, progress_bar, status_text):
      results = []
      async with aiohttp.ClientSession() as session:
          for i, (biz_name, url) in enumerate(businesses):
              status_text.text(f"Processing: {biz_name} ({i+1}/{len(businesses)})")
              result = await crawl_site(session, url, biz_name)
              results.append(result)
              progress_bar.progress((i + 1) / len(businesses))
      return results
  \<close>
  The calls on the two widgets are logged: the name and the two numbers shown by
  \<open>status_text\<close>, the numerator and the denominator passed to \<open>progress_bar\<close>. The web
  and the sets may behave differently from one crawl to the next: \<open>envs i\<close> is the
  environment of the crawl of the \<open>i\<close>-th target.
\<close>

datatype ui_event = Status_text string nat nat | Progress nat nat

fun process_loop ::
  "(nat \<Rightarrow> env) \<Rightarrow> nat \<Rightarrow> nat \<Rightarrow> (string \<times> string) list \<Rightarrow>
   crawl_result list \<times> ui_event list \<Rightarrow> pyerr + (crawl_result list \<times> ui_event list)" where
  "process_loop envs n i [] (results, ui) = Inr (results, ui)"
| "process_loop envs n i ((biz_name, url) # rest) (results, ui) =
     ebind (crawl_site (envs i) url biz_name)
       (\<lambda>result. process_loop envs n (i + 1) rest
                    (results @ [result],
                     ui @ [Status_text biz_name (i + 1) n, Progress (i + 1) n]))"

definition process_websites ::
  "(nat \<Rightarrow> env) \<Rightarrow> (string \<times> string) list \<Rightarrow> pyerr + (crawl_result list \<times> ui_event list)" where
  "process_websites envs businesses =
     process_loop envs (length businesses) 0 businesses ([], [])"

section \<open>Notions of the specification\<close>

text \<open>A root URL that parses as an absolute HTTP(S) URL, in the specification's words.\<close>

definition is_absolute_http_url :: "env \<Rightarrow> string \<Rightarrow> bool" where
  "is_absolute_http_url env url =
     (case urlparse env url of
        Inl e \<Rightarrow> False
      | Inr parsed \<Rightarrow> (scheme parsed = ''http'' \<or> scheme parsed = ''https'')
                      \<and> netloc parsed \<noteq> [])"

section \<open>Environments used in examples\<close>

text \<open>
  What CPython's \<open>urlparse\<close> returns (scheme and network location) or raises at the URLs
  of the examples, one row per URL. A URL without a row does not occur in an example.
\<close>

definition urlparse_rows :: "(string \<times> (pyerr + string \<times> string)) list" where
  "urlparse_rows =
     [(''http://['', Inl ValueError),
      (''not a url'', Inr ('''', '''')),
      (''not found'', Inr ('''', '''')),
      (''http://a.com'', Inr (''http'', ''a.com'')),
      (''http://a.com/d/p2'', Inr (''http'', ''a.com'')),
      (''http://a.com/d/p3'', Inr (''http'', ''a.com'')),
      (''http://a.com/p3'', Inr (''http'', ''a.com'')),
      (''https://www.facebook.com/acme'', Inr (''https'', ''www.facebook.com'')),
      (''https://www.facebook.com/other'', Inr (''https'', ''www.facebook.com'')),
      (''https://www.instagram.com/acme'', Inr (''https'', ''www.instagram.com'')),
      (''https://facebowww.ok.com'', Inr (''https'', ''facebowww.ok.com''))]"

definition urlparse_example :: "string \<Rightarrow> pyerr + (string \<times> string)" where
  "urlparse_example url =
     (case map_of urlparse_rows url of Some r \<Rightarrow> r | None \<Rightarrow> Inr ('''', ''''))"

text \<open>
  What \<open>urljoin(base, href)\<close> returns for the relative references of the examples; an
  absolute reference is returned as it is.
\<close>

definition urljoin_rows :: "((string \<times> string) \<times> string) list" where
  "urljoin_rows =
     [((''http://a.com'', ''/d/p2''), ''http://a.com/d/p2''),
      ((''http://a.com'', ''p3''), ''http://a.com/p3''),
      ((''http://a.com/d/p2'', ''p3''), ''http://a.com/d/p3'')]"

definition urljoin_example :: "string \<Rightarrow> string \<Rightarrow> pyerr + string" where
  "urljoin_example base href =
     (case map_of urljoin_rows (base, href) of Some u \<Rightarrow> Inr u | None \<Rightarrow> Inr href)"

text \<open>\<open>str.lower\<close> on strings of ASCII characters, which the URLs of the examples are.\<close>

definition ascii_lower :: "string \<Rightarrow> string" where
  "ascii_lower s =
     map (\<lambda>c. case map_of (zip ''ABCDEFGHIJKLMNOPQRSTUVWXYZ'' ''abcdefghijklmnopqrstuvwxyz'') c of
                Some d \<Rightarrow> d | None \<Rightarrow> c) s"

text \<open>A web where every request is refused; sets hand out their first element.\<close>

definition offline_env :: env where
  "offline_env =
     \<lparr> http_get = (\<lambda>url. None),
       find_all_a_href = (\<lambda>html. []),
       urljoin = urljoin_example,
       urlparse = urlparse_example,
       lower = ascii_lower,
       pop_choice = (\<lambda>s. 0),
       set_iter = (\<lambda>links. links) \<rparr>"

text \<open>
  A site of three pages. The root page \<open>http://a.com\<close> links to a Facebook page and to
  \<open>/d/p2\<close>; the page \<open>http://a.com/d/p2\<close> links to another Facebook page and, by the
  relative reference \<open>p3\<close>, to its sibling \<open>http://a.com/d/p3\<close>, which links to an
  Instagram page. There is no page \<open>http://a.com/p3\<close>: the server answers 404.
\<close>

definition site_env :: env where
  "site_env =
     \<lparr> http_get = (\<lambda>url.
         if url = ''http://a.com''
           then Some \<lparr> resp_status = 200, resp_text = Some ''page1'' \<rparr>
         else if url = ''http://a.com/d/p2''
           then Some \<lparr> resp_status = 200, resp_text = Some ''page2'' \<rparr>
         else if url = ''http://a.com/d/p3''
           then Some \<lparr> resp_status = 200, resp_text = Some ''page3'' \<rparr>
         else Some \<lparr> resp_status = 404, resp_text = Some ''not found'' \<rparr>),
       find_all_a_href = (\<lambda>html.
         if html = ''page1'' then [''https://www.facebook.com/acme'', ''/d/p2'']
         else if html = ''page2'' then [''https://www.facebook.com/other'', ''p3'']
         else if html = ''page3'' then [''https://www.instagram.com/acme'']
         else []),
       urljoin = urljoin_example,
       urlparse = urlparse_example,
       lower = ascii_lower,
       pop_choice = (\<lambda>s. 0),
       set_iter = (\<lambda>links. links) \<rparr>"


section \<open>Invariants of the crawl\<close>

text \<open>
  Each step of an iteration (the pop and the fetch, the recording of a social link, the
  queueing of an internal link) keeps the invariants; so every state of a crawl has them.
\<close>

lemma set_pop_Inr:
  assumes "set_pop k xs = Inr (x, rest)"
  shows "x \<in> set xs" and "set rest \<subseteq> set xs"
    and "distinct xs \<Longrightarrow> distinct rest \<and> x \<notin> set rest"
proof -
  from assms have ne: "xs \<noteq> []" by (auto simp: set_pop_def split: if_splits)
  define i where "i = k mod length xs"
  have i: "i < length xs" using ne by (simp add: i_def)
  from assms ne have x: "x = xs ! i" and r: "rest = take i xs @ drop (Suc i) xs"
    by (auto simp: set_pop_def Let_def i_def)
  have xs: "xs = take i xs @ xs ! i # drop (Suc i) xs"
    using i by (simp add: id_take_nth_drop)
  show "x \<in> set xs" using i x by simp
  show "set rest \<subseteq> set xs"
    unfolding r by (auto dest: in_set_takeD in_set_dropD)
  show "distinct rest \<and> x \<notin> set rest" if "distinct xs"
  proof -
    from that have "distinct (take i xs @ xs ! i # drop (Suc i) xs)" using xs by simp
    then show ?thesis unfolding r x by auto
  qed
qed

lemma frontier_inv_init: "frontier_inv (init_state b)"
  by (simp add: frontier_inv_def init_state_def)

lemma findings_inv_init: "findings_inv env (init_state b)"
  by (auto simp: findings_inv_def init_state_def split: if_splits)

lemma writes_inv_init: "writes_inv (init_state b)"
  by (auto simp: writes_inv_def init_state_def split: if_splits)

lemma log_inv_init: "log_inv env b (init_state b)"
  by (simp add: log_inv_def init_state_def)

lemma visit_next_cases:
  assumes "visit_next env s = Inr (s3, page)" and "frontier_inv s"
  obtains next_url rest where
    "set_pop (pop_choice env s) (to_visit s) = Inr (next_url, rest)"
    "next_url \<notin> visited s"
    "page = Some (next_url, fst (fetch env next_url))"
    "s3 = s\<lparr> to_visit := rest, visited := insert next_url (visited s),
              pages_crawled := Suc (pages_crawled s),
              fetch_log := fetch_log s @ [next_url],
              status_code := (if pages_crawled s = 0 then snd (fetch env next_url)
                              else status_code s) \<rparr>"
proof -
  from assms(1) obtain next_url rest where
    pop: "set_pop (pop_choice env s) (to_visit s) = Inr (next_url, rest)"
    by (auto simp: visit_next_def ebind_def split: sum.splits)
  from set_pop_Inr(1)[OF pop] assms(2) have nv: "next_url \<notin> visited s"
    by (auto simp: frontier_inv_def)
  from assms(1) pop nv
  have "page = Some (next_url, fst (fetch env next_url))"
    and "s3 = s\<lparr> to_visit := rest, visited := insert next_url (visited s),
              pages_crawled := Suc (pages_crawled s),
              fetch_log := fetch_log s @ [next_url],
              status_code := (if pages_crawled s = 0 then snd (fetch env next_url)
                              else status_code s) \<rparr>"
    by (simp_all add: visit_next_def ebind_def Let_def split: prod.splits if_splits)
  with pop nv show ?thesis using that by blast
qed

lemma visit_next_frontier:
  assumes "visit_next env s = Inr (s3, page)" "frontier_inv s" "loop_cond s"
  shows "frontier_inv s3"
proof -
  from assms(1,2) obtain next_url rest where
    pop: "set_pop (pop_choice env s) (to_visit s) = Inr (next_url, rest)"
    and nv: "next_url \<notin> visited s"
    and s3: "s3 = s\<lparr> to_visit := rest, visited := insert next_url (visited s),
              pages_crawled := Suc (pages_crawled s),
              fetch_log := fetch_log s @ [next_url],
              status_code := (if pages_crawled s = 0 then snd (fetch env next_url)
                              else status_code s) \<rparr>"
    by (rule visit_next_cases)
  from assms(2) have d: "distinct (to_visit s)" by (simp add: frontier_inv_def)
  note p = set_pop_Inr(2)[OF pop] set_pop_Inr(3)[OF pop d]
  from assms(2,3) p nv show ?thesis
    unfolding s3 by (auto simp: frontier_inv_def loop_cond_def)
qed

lemma visit_next_findings:
  "visit_next env s = Inr (s3, page) \<Longrightarrow> frontier_inv s \<Longrightarrow> findings_inv env s \<Longrightarrow>
   findings_inv env s3"
  by (erule (1) visit_next_cases) (simp add: findings_inv_def)

lemma visit_next_writes:
  "visit_next env s = Inr (s3, page) \<Longrightarrow> frontier_inv s \<Longrightarrow> writes_inv s \<Longrightarrow> writes_inv s3"
  by (erule (1) visit_next_cases) (simp add: writes_inv_def)

lemma visit_next_log:
  assumes "visit_next env s = Inr (s3, page)" "frontier_inv s" "log_inv env b s"
  shows "log_inv env b s3"
proof -
  from assms(1,2) obtain next_url rest where
    pop: "set_pop (pop_choice env s) (to_visit s) = Inr (next_url, rest)"
    and s3: "s3 = s\<lparr> to_visit := rest, visited := insert next_url (visited s),
              pages_crawled := Suc (pages_crawled s),
              fetch_log := fetch_log s @ [next_url],
              status_code := (if pages_crawled s = 0 then snd (fetch env next_url)
                              else status_code s) \<rparr>"
    by (rule visit_next_cases)
  from assms(2) have len: "length (fetch_log s) = pages_crawled s" by (simp add: frontier_inv_def)
  from assms(3) have ex: "\<forall>page base. (page, base) \<in> set (extract_log s) \<longrightarrow>
          base = b \<and> page \<in> set (fetch_log s)"
    by (simp add: log_inv_def)
  have ex3: "\<forall>page base. (page, base) \<in> set (extract_log s3) \<longrightarrow>
          base = b \<and> page \<in> set (fetch_log s3)"
    using ex unfolding s3 by simp
  have ne3: "fetch_log s3 \<noteq> []" unfolding s3 by simp
  have "hd (fetch_log s3) = b \<and> status_code s3 = snd (fetch env b)"
  proof (cases "fetch_log s = []")
    case True
    with assms(3) have "to_visit s = [b]" by (simp add: log_inv_def init_state_def)
    with set_pop_Inr(1)[OF pop] have "next_url = b" by simp
    with True len show ?thesis unfolding s3 by simp
  next
    case False
    with len have "pages_crawled s \<noteq> 0" by (metis length_0_conv)
    with False assms(3) show ?thesis unfolding s3 by (simp add: log_inv_def)
  qed
  with ex3 ne3 show ?thesis unfolding log_inv_def by blast
qed

lemma record_social_cases:
  assumes "record_social env link s = Inr s'"
  obtains "s' = s"
  | p where "is_social_link env link = Inr (Some p)" "social_links s p = Some ''Not Found''"
      "s' = s\<lparr> social_links := (social_links s)(p \<mapsto> link),
                write_log := write_log s @ [(p, link)] \<rparr>"
proof (cases "is_social_link env link")
  case (Inl e)
  with assms show ?thesis by (simp add: record_social_def ebind_def)
next
  case (Inr platform)
  show ?thesis
  proof (cases platform)
    case None
    with Inr assms have "s' = s" by (simp add: record_social_def ebind_def)
    then show ?thesis by (rule that(1))
  next
    case (Some p)
    note isl = Inr[unfolded Some]
    show ?thesis
    proof (cases "p = []")
      case True
      with isl assms have "s' = s" by (simp add: record_social_def ebind_def)
      then show ?thesis by (rule that(1))
    next
      case False
      show ?thesis
      proof (cases "social_links s p")
        case None
        with isl assms False show ?thesis
          by (simp add: record_social_def ebind_def dict_get_def)
      next
        case (Some found)
        show ?thesis
        proof (cases "found = ''Not Found''")
          case True
          with isl assms False Some
          have "s' = s\<lparr> social_links := (social_links s)(p \<mapsto> link),
                write_log := write_log s @ [(p, link)] \<rparr>"
            by (simp add: record_social_def ebind_def dict_get_def)
          with isl Some True show ?thesis using that(2) by blast
        next
          case nf: False
          with isl assms False Some have "s' = s"
            by (simp add: record_social_def ebind_def dict_get_def)
          then show ?thesis by (rule that(1))
        qed
      qed
    qed
  qed
qed

lemma record_social_frontier:
  "record_social env link s = Inr s' \<Longrightarrow> frontier_inv s \<Longrightarrow> frontier_inv s'"
  by (erule record_social_cases) (simp_all add: frontier_inv_def)

lemma record_social_log:
  assumes "record_social env link s = Inr s'" "fetch_log s \<noteq> []" "log_inv env b s"
  shows "log_inv env b s'"
  using assms(1)
proof (cases rule: record_social_cases)
  case 1
  with assms(3) show ?thesis by simp
next
  case (2 p)
  from assms(2,3) show ?thesis unfolding 2(3) log_inv_def by simp
qed

lemma record_social_findings:
  assumes "record_social env link s = Inr s'" "findings_inv env s"
  shows "findings_inv env s'"
  using assms(1)
proof (cases rule: record_social_cases)
  case 1
  with assms(2) show ?thesis by simp
next
  case (2 p)
  from assms(2) have d0: "dom (social_links s) = {''Facebook'', ''Instagram''}"
    by (simp add: findings_inv_def)
  from assms(2) have v0: "\<forall>k v. social_links s k = Some v \<longrightarrow>
             v = ''Not Found'' \<or> is_social_link env v = Inr (Some k)"
    by (simp add: findings_inv_def)
  from 2(2) have "p \<in> dom (social_links s)" by (rule domI)
  then have "insert p (dom (social_links s)) = dom (social_links s)" by (rule insert_absorb)
  moreover have "dom (social_links s') = insert p (dom (social_links s))"
    unfolding 2(3) by simp
  ultimately have a: "dom (social_links s') = {''Facebook'', ''Instagram''}"
    using d0 by simp
  have b: "v = ''Not Found'' \<or> is_social_link env v = Inr (Some k)"
    if "social_links s' k = Some v" for k v
  proof (cases "k = p")
    case True
    with that have "v = link" unfolding 2(3) by simp
    with 2(1) True show ?thesis by simp
  next
    case False
    with that have "social_links s k = Some v" unfolding 2(3) by simp
    with v0 show ?thesis by (elim allE impE) assumption+
  qed
  show ?thesis unfolding findings_inv_def
    by (intro conjI allI impI) (rule a, erule b)
qed

lemma record_social_writes:
  assumes "record_social env link s = Inr s'" "writes_inv s"
    and nf: "is_social_link env ''Not Found'' = Inr None"
  shows "writes_inv s'"
  using assms(1)
proof (cases rule: record_social_cases)
  case 1
  with assms(2) show ?thesis by simp
next
  case (2 p)
  from 2(1) nf have ne: "link \<noteq> ''Not Found''" by auto
  from assms(2) have d: "distinct (map fst (write_log s))"
    and w: "\<And>k v. (k, v) \<in> set (write_log s) \<longleftrightarrow>
             social_links s k = Some v \<and> v \<noteq> ''Not Found''"
    unfolding writes_inv_def by blast+
  have nolog: "p \<notin> fst ` set (write_log s)"
  proof
    assume "p \<in> fst ` set (write_log s)"
    then obtain v where "(p, v) \<in> set (write_log s)" by auto
    with w have "social_links s p = Some v" "v \<noteq> ''Not Found''" by blast+
    with 2(2) show False by simp
  qed
  have c: "distinct (map fst (write_log s'))"
    using d nolog unfolding 2(3) by simp
  have e: "(k, v) \<in> set (write_log s') \<longleftrightarrow>
             social_links s' k = Some v \<and> v \<noteq> ''Not Found''" for k v
  proof (cases "k = p")
    case True
    have "(p, v) \<notin> set (write_log s)" using nolog by force
    with True ne show ?thesis unfolding 2(3) by auto
  next
    case False
    with w[of k v] show ?thesis unfolding 2(3) by simp
  qed
  from c e show ?thesis unfolding writes_inv_def by blast
qed


lemma set_add_set: "set (set_add x xs) = insert x (set xs)"
  by (auto simp: set_add_def)

lemma set_add_distinct: "distinct xs \<Longrightarrow> distinct (set_add x xs)"
  by (simp add: set_add_def)

lemma enqueue_cases:
  obtains "enqueue_internal env bd link s = s"
  | "link \<notin> visited s"
    "enqueue_internal env bd link s = s\<lparr> to_visit := set_add link (to_visit s) \<rparr>"
proof (cases "urlparse env link")
  case (Inl e)
  then have "enqueue_internal env bd link s = s" by (simp add: enqueue_internal_def)
  then show ?thesis by (rule that(1))
next
  case (Inr parsed)
  show ?thesis
  proof (cases "str_in bd (netloc parsed) \<and> link \<notin> visited s \<and> length (to_visit s) < 10")
    case True
    with Inr have "enqueue_internal env bd link s = s\<lparr> to_visit := set_add link (to_visit s) \<rparr>"
      by (simp add: enqueue_internal_def)
    with True show ?thesis using that(2) by blast
  next
    case False
    with Inr have "enqueue_internal env bd link s = s" by (auto simp: enqueue_internal_def)
    then show ?thesis by (rule that(1))
  qed
qed

lemma enqueue_frontier:
  assumes "frontier_inv s"
  shows "frontier_inv (enqueue_internal env bd link s)"
proof (cases rule: enqueue_cases[of env bd link s])
  case 1
  with assms show ?thesis by simp
next
  case 2
  from assms 2(1) show ?thesis unfolding 2(2)
    by (simp add: frontier_inv_def set_add_set set_add_distinct)
qed

lemma enqueue_findings: "findings_inv env s \<Longrightarrow> findings_inv env (enqueue_internal env bd link s)"
  by (cases rule: enqueue_cases[of env bd link s]) (simp_all add: findings_inv_def)

lemma enqueue_writes: "writes_inv s \<Longrightarrow> writes_inv (enqueue_internal env bd link s)"
  by (cases rule: enqueue_cases[of env bd link s]) (simp_all add: writes_inv_def)

lemma enqueue_log:
  "fetch_log s \<noteq> [] \<Longrightarrow> log_inv env b s \<Longrightarrow> log_inv env b (enqueue_internal env bd link s)"
  by (cases rule: enqueue_cases[of env bd link s]) (simp_all add: log_inv_def)

lemma enqueue_fetch_log: "fetch_log (enqueue_internal env bd link s) = fetch_log s"
  by (cases rule: enqueue_cases[of env bd link s]) simp_all

lemma record_social_fetch_log: "record_social env link s = Inr s' \<Longrightarrow> fetch_log s' = fetch_log s"
  by (erule record_social_cases) simp_all

lemma link_body_inv:
  assumes "link_body env bd link s = Inr s'"
    "frontier_inv s" "findings_inv env s" "log_inv env b s" "fetch_log s \<noteq> []"
  shows "frontier_inv s' \<and> findings_inv env s' \<and> log_inv env b s' \<and> fetch_log s' = fetch_log s"
proof -
  from assms(1) obtain s1 where r: "record_social env link s = Inr s1"
    and s': "s' = enqueue_internal env bd link s1"
    by (cases "record_social env link s") (simp_all add: link_body_def ebind_def)
  have f: "fetch_log s1 = fetch_log s" using r by (rule record_social_fetch_log)
  with assms(5) have ne: "fetch_log s1 \<noteq> []" by simp
  show ?thesis unfolding s'
    using enqueue_frontier[OF record_social_frontier[OF r assms(2)]]
      enqueue_findings[OF record_social_findings[OF r assms(3)]]
      enqueue_log[OF ne record_social_log[OF r assms(5,4)]] f
    by (simp add: enqueue_fetch_log)
qed

lemma link_body_writes:
  assumes "link_body env bd link s = Inr s'" "writes_inv s"
    "is_social_link env ''Not Found'' = Inr None"
  shows "writes_inv s'"
proof -
  from assms(1) obtain s1 where r: "record_social env link s = Inr s1"
    and s': "s' = enqueue_internal env bd link s1"
    by (cases "record_social env link s") (simp_all add: link_body_def ebind_def)
  show ?thesis unfolding s'
    by (rule enqueue_writes[OF record_social_writes[OF r assms(2,3)]])
qed

lemma for_links_inv:
  "for_links env bd links s = Inr s' \<Longrightarrow> frontier_inv s \<Longrightarrow> findings_inv env s \<Longrightarrow>
   log_inv env b s \<Longrightarrow> fetch_log s \<noteq> [] \<Longrightarrow>
   frontier_inv s' \<and> findings_inv env s' \<and> log_inv env b s' \<and> fetch_log s' = fetch_log s"
proof (induction links arbitrary: s)
  case Nil
  then show ?case by simp
next
  case (Cons l ls)
  from Cons.prems(1) obtain s1 where l: "link_body env bd l s = Inr s1"
    and r: "for_links env bd ls s1 = Inr s'"
    by (cases "link_body env bd l s") (simp_all add: ebind_def)
  from link_body_inv[OF l Cons.prems(2-5)]
  have i: "frontier_inv s1" "findings_inv env s1" "log_inv env b s1" "fetch_log s1 = fetch_log s"
    by simp_all
  with Cons.prems(5) have "fetch_log s1 \<noteq> []" by simp
  from Cons.IH[OF r i(1-3) this] i(4) show ?case by simp
qed

lemma for_links_writes:
  "for_links env bd links s = Inr s' \<Longrightarrow> writes_inv s \<Longrightarrow>
   is_social_link env ''Not Found'' = Inr None \<Longrightarrow> writes_inv s'"
proof (induction links arbitrary: s)
  case Nil
  then show ?case by simp
next
  case (Cons l ls)
  from Cons.prems(1) obtain s1 where l: "link_body env bd l s = Inr s1"
    and r: "for_links env bd ls s1 = Inr s'"
    by (cases "link_body env bd l s") (simp_all add: ebind_def)
  from Cons.IH[OF r link_body_writes[OF l Cons.prems(2,3)] Cons.prems(3)] show ?case .
qed

text \<open>The state in which the links of a page are run through.\<close>

lemma logged_inv:
  assumes "frontier_inv s" "findings_inv env s" "log_inv env b s" "u \<in> set (fetch_log s)"
  shows "frontier_inv (s\<lparr> extract_log := extract_log s @ [(u, b)] \<rparr>)"
    and "findings_inv env (s\<lparr> extract_log := extract_log s @ [(u, b)] \<rparr>)"
    and "log_inv env b (s\<lparr> extract_log := extract_log s @ [(u, b)] \<rparr>)"
    and "fetch_log (s\<lparr> extract_log := extract_log s @ [(u, b)] \<rparr>) \<noteq> []"
proof -
  from assms(1) show "frontier_inv (s\<lparr> extract_log := extract_log s @ [(u, b)] \<rparr>)"
    by (simp add: frontier_inv_def)
  from assms(2) show "findings_inv env (s\<lparr> extract_log := extract_log s @ [(u, b)] \<rparr>)"
    by (simp add: findings_inv_def)
  from assms(4) have ne: "fetch_log s \<noteq> []" by auto
  then show "fetch_log (s\<lparr> extract_log := extract_log s @ [(u, b)] \<rparr>) \<noteq> []" by simp
  from assms(3,4) ne show "log_inv env b (s\<lparr> extract_log := extract_log s @ [(u, b)] \<rparr>)"
    unfolding log_inv_def by auto
qed

lemma visit_next_fetched:
  assumes "visit_next env s = Inr (s3, Some (u, html))" "frontier_inv s"
  shows "u \<in> set (fetch_log s3)" and "html = fst (fetch env u)"
proof -
  from assms obtain next_url rest where
    p: "Some (u, html) = Some (next_url, fst (fetch env next_url))"
    and s3: "s3 = s\<lparr> to_visit := rest, visited := insert next_url (visited s),
              pages_crawled := Suc (pages_crawled s),
              fetch_log := fetch_log s @ [next_url],
              status_code := (if pages_crawled s = 0 then snd (fetch env next_url)
                              else status_code s) \<rparr>"
    by (rule visit_next_cases)
  from p have u: "u = next_url" and h: "html = fst (fetch env next_url)" by simp_all
  from u show "u \<in> set (fetch_log s3)" unfolding s3 by simp
  from u h show "html = fst (fetch env u)" by simp
qed

lemma visit_next_inv:
  assumes "visit_next env s = Inr (s3, page)" "loop_cond s"
    "frontier_inv s" "findings_inv env s" "log_inv env b s"
  shows "frontier_inv s3 \<and> findings_inv env s3 \<and> log_inv env b s3 \<and> fetch_log s3 \<noteq> []
         \<and> page \<noteq> None"
proof -
  from assms(1,3) obtain next_url rest where
    p: "page = Some (next_url, fst (fetch env next_url))"
    and s3: "s3 = s\<lparr> to_visit := rest, visited := insert next_url (visited s),
              pages_crawled := Suc (pages_crawled s),
              fetch_log := fetch_log s @ [next_url],
              status_code := (if pages_crawled s = 0 then snd (fetch env next_url)
                              else status_code s) \<rparr>"
    by (rule visit_next_cases)
  have "fetch_log s3 \<noteq> []" unfolding s3 by simp
  with p visit_next_frontier[OF assms(1,3,2)] visit_next_findings[OF assms(1,3,4)]
    visit_next_log[OF assms(1,3,5)]
  show ?thesis by simp
qed

lemma scan_page_inv:
  assumes "scan_page env b bd s u html = Inr s'"
    "frontier_inv s" "findings_inv env s" "log_inv env b s" "u \<in> set (fetch_log s)"
  shows "frontier_inv s' \<and> findings_inv env s' \<and> log_inv env b s'"
proof (cases "html = []")
  case True
  with assms show ?thesis by (simp add: scan_page_def)
next
  case False
  with assms(1) obtain links where
    f: "for_links env bd (set_iter env links)
          (s\<lparr> extract_log := extract_log s @ [(u, b)] \<rparr>) = Inr s'"
    by (cases "extract_links_from_html env html b") (simp_all add: scan_page_def ebind_def)
  from for_links_inv[OF f logged_inv[OF assms(2-5)]] show ?thesis by simp
qed

lemma scan_page_writes:
  assumes "scan_page env b bd s u html = Inr s'" "writes_inv s"
    "is_social_link env ''Not Found'' = Inr None"
  shows "writes_inv s'"
proof (cases "html = []")
  case True
  with assms show ?thesis by (simp add: scan_page_def)
next
  case False
  with assms(1) obtain links where
    f: "for_links env bd (set_iter env links)
          (s\<lparr> extract_log := extract_log s @ [(u, b)] \<rparr>) = Inr s'"
    by (cases "extract_links_from_html env html b") (simp_all add: scan_page_def ebind_def)
  from assms(2) have "writes_inv (s\<lparr> extract_log := extract_log s @ [(u, b)] \<rparr>)"
    by (simp add: writes_inv_def)
  from for_links_writes[OF f this assms(3)] show ?thesis .
qed

lemma loop_body_cases:
  assumes "loop_body env b bd s = Inr s'" "frontier_inv s"
  obtains s3 u html where "visit_next env s = Inr (s3, Some (u, html))"
    "scan_page env b bd s3 u html = Inr s'"
proof -
  from assms(1) obtain s3 page where v: "visit_next env s = Inr (s3, page)"
    and r: "(case page of None \<Rightarrow> Inr s3
              | Some (next_url, html) \<Rightarrow> scan_page env b bd s3 next_url html) = Inr s'"
    by (cases "visit_next env s") (auto simp: loop_body_def ebind_def)
  from v assms(2) obtain u where "page = Some (u, fst (fetch env u))"
    by (rule visit_next_cases)
  with v r show ?thesis using that by simp
qed

lemma loop_body_inv:
  assumes "loop_body env b bd s = Inr s'" "loop_cond s"
    "frontier_inv s" "findings_inv env s" "log_inv env b s"
  shows "frontier_inv s' \<and> findings_inv env s' \<and> log_inv env b s'"
proof -
  from assms(1,3) obtain s3 u html where v: "visit_next env s = Inr (s3, Some (u, html))"
    and sc: "scan_page env b bd s3 u html = Inr s'"
    by (rule loop_body_cases)
  from visit_next_inv[OF v assms(2-5)]
  have i: "frontier_inv s3" "findings_inv env s3" "log_inv env b s3" by simp_all
  from scan_page_inv[OF sc i visit_next_fetched(1)[OF v assms(3)]] show ?thesis .
qed

lemma loop_body_writes:
  assumes "loop_body env b bd s = Inr s'" "frontier_inv s" "writes_inv s"
    "is_social_link env ''Not Found'' = Inr None"
  shows "writes_inv s'"
proof -
  from assms(1,2) obtain s3 u html where v: "visit_next env s = Inr (s3, Some (u, html))"
    and sc: "scan_page env b bd s3 u html = Inr s'"
    by (rule loop_body_cases)
  from scan_page_writes[OF sc visit_next_writes[OF v assms(2,3)] assms(4)] show ?thesis .
qed

lemma loop_head_inv:
  "loop_head env b bd s \<Longrightarrow> frontier_inv s \<and> findings_inv env s \<and> log_inv env b s"
proof (induction rule: loop_head.induct)
  case head_init
  show ?case by (simp add: frontier_inv_init findings_inv_init log_inv_init)
next
  case (head_next s s')
  then show ?case using loop_body_inv[of env b bd s s'] by simp
qed

lemma loop_head_writes:
  "loop_head env b bd s \<Longrightarrow> is_social_link env ''Not Found'' = Inr None \<Longrightarrow> writes_inv s"
proof (induction rule: loop_head.induct)
  case head_init
  show ?case by (rule writes_inv_init)
next
  case (head_next s s')
  from loop_head_inv[OF head_next.hyps(1)] have "frontier_inv s" by simp
  from loop_body_writes[OF head_next.hyps(4) this head_next.IH[OF head_next.prems] head_next.prems]
  show ?case .
qed

lemma crawl_point_inv:
  assumes "crawl_point env b bd t"
  shows "frontier_inv t \<and> findings_inv env t \<and> log_inv env b t"
  using assms
proof (induction rule: crawl_point.induct)
  case (at_head s)
  then show ?case by (rule loop_head_inv)
next
  case (after_visit s s3 page)
  from loop_head_inv[OF after_visit(1)]
  have i: "frontier_inv s" "findings_inv env s" "log_inv env b s" by simp_all
  from visit_next_inv[OF after_visit(4,2) i] show ?case by simp
next
  case (after_links s s3 next_url html links n t)
  from loop_head_inv[OF after_links(1)]
  have i: "frontier_inv s" "findings_inv env s" "log_inv env b s" by simp_all
  from visit_next_inv[OF after_links(4,2) i]
  have j: "frontier_inv s3" "findings_inv env s3" "log_inv env b s3" by simp_all
  from for_links_inv[OF after_links(7)
      logged_inv[OF j visit_next_fetched(1)[OF after_links(4) i(1)]]]
  show ?case by simp
qed

lemma crawl_point_writes:
  "crawl_point env b bd t \<Longrightarrow> is_social_link env ''Not Found'' = Inr None \<Longrightarrow> writes_inv t"
proof (induction rule: crawl_point.induct)
  case (at_head s)
  then show ?case by (rule loop_head_writes)
next
  case (after_visit s s3 page)
  from loop_head_inv[OF after_visit(1)] have i: "frontier_inv s" by simp
  from visit_next_writes[OF after_visit(4) i loop_head_writes[OF after_visit(1,5)]]
  show ?case .
next
  case (after_links s s3 next_url html links n t)
  from loop_head_inv[OF after_links(1)] have i: "frontier_inv s" by simp
  from visit_next_writes[OF after_links(4) i loop_head_writes[OF after_links(1,8)]]
  have "writes_inv (s3\<lparr> extract_log := extract_log s3 @ [(next_url, b)] \<rparr>)"
    by (simp add: writes_inv_def)
  from for_links_writes[OF after_links(7) this after_links(8)] show ?case .
qed

section \<open>The loop as a whole\<close>

text \<open>
  The findings always hold their two keys, so the test of the early exit does not raise; a
  run of the loop ends in a state at the head of the loop in which the loop condition is
  false or both platforms are found.
\<close>

lemma both_found_total:
  assumes "findings_inv env s"
  shows "both_found s = Inr (social_links s ''Facebook'' \<noteq> Some ''Not Found''
                            \<and> social_links s ''Instagram'' \<noteq> Some ''Not Found'')"
proof -
  from assms have "dom (social_links s) = {''Facebook'', ''Instagram''}"
    by (simp add: findings_inv_def)
  then have "''Facebook'' \<in> dom (social_links s)" "''Instagram'' \<in> dom (social_links s)"
    by simp_all
  then obtain fb ig where "social_links s ''Facebook'' = Some fb"
    "social_links s ''Instagram'' = Some ig" by blast
  then show ?thesis by (simp add: both_found_def dict_get_def ebind_def)
qed

lemma both_found_init: "both_found (init_state b) = Inr False"
  by (simp add: both_found_def dict_get_def ebind_def init_state_def)

lemma loop_cond_init: "loop_cond (init_state b)"
  by (simp add: loop_cond_def init_state_def max_pages_def)

lemma crawl_loop_final:
  "loop_head env b bd s \<Longrightarrow> crawl_loop env b bd s = Inr s' \<Longrightarrow>
   loop_head env b bd s' \<and> (\<not> loop_cond s' \<or> both_found s' = Inr True)"
proof (induction env b bd s rule: crawl_loop.induct)
  case (1 env b bd s)
  show ?case
  proof (cases "loop_cond s")
    case False
    with "1.prems" show ?thesis by simp
  next
    case True
    note cond = this
    from "1.prems"(2) cond obtain found where bf: "both_found s = Inr found"
      by (cases "both_found s") simp_all
    show ?thesis
    proof (cases found)
      case True
      with "1.prems" cond bf show ?thesis by simp
    next
      case False
      with "1.prems"(2) cond bf obtain s1 where body: "loop_body env b bd s = Inr s1"
        and rest: "crawl_loop env b bd s1 = Inr s'"
        by (cases "loop_body env b bd s") simp_all
      from bf False have bf': "both_found s = Inr False" by simp
      have "loop_head env b bd s1"
        by (rule head_next[OF "1.prems"(1) cond bf' body])
      from "1.IH"[OF cond bf False body this rest] show ?thesis .
    qed
  qed
qed

lemma crawl_loop_from_head:
  "loop_head env b bd s \<Longrightarrow> crawl_loop env b bd (init_state b) = crawl_loop env b bd s"
proof (induction rule: loop_head.induct)
  case head_init
  show ?case by (rule refl)
next
  case (head_next s s')
  have "crawl_loop env b bd s = crawl_loop env b bd s'"
    using head_next.hyps(2,3,4) by (subst crawl_loop.simps) simp
  with head_next.IH show ?case by simp
qed

lemma crawl_loop_stop:
  "\<not> loop_cond s \<or> both_found s = Inr True \<Longrightarrow> crawl_loop env b bd s = Inr s"
  by (subst crawl_loop.simps) auto

lemma crawl_run_cases:
  assumes "crawl_run env b = Inr s"
  obtains parsed where "urlparse env b = Inr parsed"
    "crawl_loop env b (netloc parsed) (init_state b) = Inr s"
    "loop_head env b (netloc parsed) s" "\<not> loop_cond s \<or> both_found s = Inr True"
proof -
  from assms obtain parsed where p: "urlparse env b = Inr parsed"
    and l: "crawl_loop env b (netloc parsed) (init_state b) = Inr s"
    by (cases "urlparse env b") (simp_all add: crawl_run_def ebind_def)
  from crawl_loop_final[OF head_init l] p l show ?thesis using that by blast
qed

lemma final_fetched:
  assumes "loop_head env b bd s" "\<not> loop_cond s \<or> both_found s = Inr True"
  shows "fetch_log s \<noteq> []"
proof
  assume "fetch_log s = []"
  with loop_head_inv[OF assms(1)] have "s = init_state b" by (simp add: log_inv_def)
  with assms(2) show False by (simp add: both_found_init loop_cond_init)
qed

lemma crawl_site_cases:
  assumes "crawl_site env b n = Inr r"
  obtains s where "crawl_run env b = Inr s" "make_result n b s = Inr r"
  using assms by (cases "crawl_run env b") (simp_all add: crawl_site_def ebind_def)

lemma make_result_fields:
  assumes "make_result n b s = Inr r"
  shows "Pages_Crawled r = pages_crawled s" "Status_Code r = status_code s"
    "social_links s ''Facebook'' = Some (Facebook r)"
    "social_links s ''Instagram'' = Some (Instagram r)"
    "Business_Name r = n" "Website r = b"
proof -
  from assms obtain fb where fb: "social_links s ''Facebook'' = Some fb"
    by (cases "social_links s ''Facebook''") (simp_all add: make_result_def ebind_def dict_get_def)
  from assms fb obtain ig where ig: "social_links s ''Instagram'' = Some ig"
    by (cases "social_links s ''Instagram''") (simp_all add: make_result_def ebind_def dict_get_def)
  from assms fb ig have r: "r = \<lparr> Business_Name = n, Website = b, Facebook = fb, Instagram = ig,
      Status_Code = status_code s, Pages_Crawled = pages_crawled s \<rparr>"
    by (simp add: make_result_def ebind_def dict_get_def)
  show "Pages_Crawled r = pages_crawled s" "Status_Code r = status_code s"
    "social_links s ''Facebook'' = Some (Facebook r)"
    "social_links s ''Instagram'' = Some (Instagram r)"
    "Business_Name r = n" "Website r = b"
    unfolding r using fb ig by simp_all
qed

lemma crawl_loop_unreachable:
  assumes "http_get env b = None"
  shows "crawl_loop env b bd (init_state b) =
         Inr ((init_state b)\<lparr> to_visit := [], visited := {b}, pages_crawled := 1,
                fetch_log := [b], status_code := 0 \<rparr>)"
proof -
  define s1 where "s1 = (init_state b)\<lparr> to_visit := [], visited := {b}, pages_crawled := 1,
                fetch_log := [b], status_code := 0 \<rparr>"
  have f: "fetch env b = ([], 0)" using assms by (simp add: fetch_def)
  have v: "visit_next env (init_state b) = Inr (s1, Some (b, []))"
    by (simp add: visit_next_def set_pop_def ebind_def init_state_def f Let_def s1_def)
  have body: "loop_body env b bd (init_state b) = Inr s1"
    by (simp add: loop_body_def v ebind_def scan_page_def)
  have "\<not> loop_cond s1" by (simp add: loop_cond_def s1_def)
  then have stop: "crawl_loop env b bd s1 = Inr s1" by (intro crawl_loop_stop disjI1)
  have "crawl_loop env b bd (init_state b) = crawl_loop env b bd s1"
    by (rule crawl_loop_from_head)
       (rule head_next[OF head_init loop_cond_init both_found_init body])
  with stop show ?thesis by (simp add: s1_def)
qed

lemma crawl_site_unreachable:
  assumes "urlparse env b = Inr parsed" "http_get env b = None"
  shows "crawl_site env b n =
         Inr \<lparr> Business_Name = n, Website = b, Facebook = ''Not Found'',
               Instagram = ''Not Found'', Status_Code = 0, Pages_Crawled = 1 \<rparr>"
proof -
  have "crawl_run env b =
         Inr ((init_state b)\<lparr> to_visit := [], visited := {b}, pages_crawled := 1,
                fetch_log := [b], status_code := 0 \<rparr>)"
    using crawl_loop_unreachable[OF assms(2), of "netloc parsed"]
    by (simp add: crawl_run_def ebind_def assms(1))
  then show ?thesis
    by (simp add: crawl_site_def ebind_def make_result_def dict_get_def init_state_def)
qed

section \<open>Inputs on which the program departs from its specification\<close>

text \<open>
  C1 (the links of every fetched page are resolved against the URL that page was fetched
  from) fails on the site of three pages. The extractor is called twice, for the root
  page and for \<open>http://a.com/d/p2\<close>, both times with the root URL as base (line 90
  passes \<open>base_url\<close>, not \<open>next_url\<close>). The reference \<open>p3\<close> of the second page is
  therefore resolved to \<open>http://a.com/p3\<close>, which is fetched and does not exist, in
  place of \<open>http://a.com/d/p3\<close>, and the Instagram link of that page is not found.
\<close>

theorem extract_base_is_root_url:
  "map_sum id extract_log (crawl_run site_env ''http://a.com'') =
     Inr [(''http://a.com'', ''http://a.com''), (''http://a.com/d/p2'', ''http://a.com'')]
   \<and> map_sum id fetch_log (crawl_run site_env ''http://a.com'') =
     Inr [''http://a.com'', ''http://a.com/d/p2'', ''http://a.com/p3'']
   \<and> crawl_site site_env ''http://a.com'' ''A'' =
     Inr \<lparr> Business_Name = ''A'', Website = ''http://a.com'',
           Facebook = ''https://www.facebook.com/acme'', Instagram = ''Not Found'',
           Status_Code = 200, Pages_Crawled = 3 \<rparr>"
  by code_simp

text \<open>
  C3 (the classifier matches the host with a leading \<open>www.\<close> stripped, and never raises)
  fails at two URLs. At \<open>http://[\<close>, where \<open>urlparse\<close> raises \<open>ValueError\<close>, the
  classifier raises it, having no handler. At \<open>https://facebowww.ok.com\<close> it answers
  Facebook, because \<open>replace\<close> removes the \<open>www.\<close> inside the host, which does not
  contain \<open>facebook.com\<close>.
\<close>

theorem is_social_link_failing_inputs:
  "is_social_link offline_env ''http://['' = Inl ValueError
   \<and> is_social_link offline_env ''https://facebowww.ok.com'' = Inr (Some ''Facebook'')
   \<and> \<not> str_in ''facebook.com'' ''facebowww.ok.com''"
  by code_simp

text \<open>
  C9 (one result per target, whatever happens to a target) fails on a list of two
  targets of which the second has the root URL \<open>http://[\<close>: \<open>urlparse\<close> raises at line
  64 of \<open>crawl_site\<close>, nothing handles it, and \<open>process_websites\<close> returns no list at
  all, although the first target had been crawled.
\<close>

theorem process_websites_aborts:
  "process_websites (\<lambda>i. offline_env) [(''A'', ''http://a.com''), (''B'', ''http://['')] =
     Inl ValueError
   \<and> crawl_site offline_env ''http://a.com'' ''A'' =
     Inr \<lparr> Business_Name = ''A'', Website = ''http://a.com'',
           Facebook = ''Not Found'', Instagram = ''Not Found'',
           Status_Code = 0, Pages_Crawled = 1 \<rparr>"
  by code_simp

text \<open>
  C10 (the loop runs at least once for every root URL, valid or not, and the result has
  at least one page crawled) fails at the root URL \<open>http://[\<close>: the crawl raises before
  the loop and returns no result.
\<close>

theorem crawl_site_raises_before_loop:
  "crawl_run offline_env ''http://['' = Inl ValueError
   \<and> crawl_site offline_env ''http://['' ''B'' = Inl ValueError"
  by (simp add: crawl_site_def crawl_run_def ebind_def offline_env_def
      urlparse_example_def urlparse_rows_def)

section \<open>Properties of every crawl\<close>

text \<open>
C4: the Crawl Result of every crawl has at most \<open>max_pages\<close> pages crawled, and
  \<open>max_pages\<close> is 3.
\<close>

theorem pages_crawled_bounded:
  "crawl_site env base_url biz_name = Inr r \<Longrightarrow> Pages_Crawled r \<le> max_pages \<and> max_pages = 3"
proof -
  assume "crawl_site env base_url biz_name = Inr r"
  then obtain s where run: "crawl_run env base_url = Inr s"
    and res: "make_result biz_name base_url s = Inr r"
    by (rule crawl_site_cases)
  from run obtain parsed where "loop_head env base_url (netloc parsed) s"
    by (rule crawl_run_cases)
  then have "frontier_inv s" using loop_head_inv by blast
  then have "pages_crawled s \<le> max_pages" by (simp add: frontier_inv_def)
  with make_result_fields(1)[OF res] show ?thesis by (simp add: max_pages_def)
qed

text \<open>
C4 on the site of three pages: the crawl returns a result, with three pages crawled.
\<close>

theorem pages_crawled_bounded_witness:
  "crawl_site site_env ''http://a.com'' ''A'' =
     Inr \<lparr> Business_Name = ''A'', Website = ''http://a.com'',
           Facebook = ''https://www.facebook.com/acme'', Instagram = ''Not Found'',
           Status_Code = 200, Pages_Crawled = 3 \<rparr>
   \<and> (3::nat) \<le> max_pages \<and> max_pages = 3"
proof -
  have run: "crawl_site site_env ''http://a.com'' ''A'' =
     Inr \<lparr> Business_Name = ''A'', Website = ''http://a.com'',
           Facebook = ''https://www.facebook.com/acme'', Instagram = ''Not Found'',
           Status_Code = 200, Pages_Crawled = 3 \<rparr>"
    by code_simp
  from pages_crawled_bounded[OF run] run show ?thesis by simp
qed

text \<open>
C5: in every state of a crawl (at the head of the loop, after the fetch, after each
  link) and in its final state, the log of fetches has no duplicate, every fetched URL is
  in \<open>visited\<close>, and \<open>to_visit\<close> and \<open>visited\<close> are disjoint.
\<close>

theorem no_url_fetched_twice:
  "(crawl_point env base_url base_domain s \<longrightarrow>
      distinct (fetch_log s) \<and> set (fetch_log s) \<subseteq> visited s
      \<and> set (to_visit s) \<inter> visited s = {})
   \<and> (crawl_run env base_url = Inr s' \<longrightarrow>
      distinct (fetch_log s') \<and> set (fetch_log s') \<subseteq> visited s'
      \<and> set (to_visit s') \<inter> visited s' = {})"
proof (intro conjI impI)
  assume "crawl_point env base_url base_domain s"
  then have f: "frontier_inv s" using crawl_point_inv by blast
  from f show "distinct (fetch_log s)" by (simp add: frontier_inv_def)
  from f show "set (fetch_log s) \<subseteq> visited s" by (simp add: frontier_inv_def)
  from f show "set (to_visit s) \<inter> visited s = {}" by (simp add: frontier_inv_def)
next
  assume "crawl_run env base_url = Inr s'"
  then obtain parsed where "loop_head env base_url (netloc parsed) s'"
    by (rule crawl_run_cases)
  then have f: "frontier_inv s'" using loop_head_inv by blast
  from f show "distinct (fetch_log s')" by (simp add: frontier_inv_def)
  from f show "set (fetch_log s') \<subseteq> visited s'" by (simp add: frontier_inv_def)
  from f show "set (to_visit s') \<inter> visited s' = {}" by (simp add: frontier_inv_def)
qed

text \<open>
C5 on the site of three pages: three different URLs are fetched.
\<close>

theorem no_url_fetched_twice_witness:
  "\<exists>s'. crawl_run site_env ''http://a.com'' = Inr s'
     \<and> fetch_log s' = [''http://a.com'', ''http://a.com/d/p2'', ''http://a.com/p3'']
     \<and> crawl_point site_env ''http://a.com'' ''a.com'' (init_state ''http://a.com'')
     \<and> distinct (fetch_log s') \<and> set (fetch_log s') \<subseteq> visited s'
     \<and> set (to_visit s') \<inter> visited s' = {}
     \<and> set (to_visit (init_state ''http://a.com'')) \<inter> visited (init_state ''http://a.com'') = {}"
proof -
  have ev: "map_sum id fetch_log (crawl_run site_env ''http://a.com'') =
            Inr [''http://a.com'', ''http://a.com/d/p2'', ''http://a.com/p3'']"
    by code_simp
  then obtain s' where run: "crawl_run site_env ''http://a.com'' = Inr s'"
    and log: "fetch_log s' = [''http://a.com'', ''http://a.com/d/p2'', ''http://a.com/p3'']"
    by (cases "crawl_run site_env ''http://a.com''") simp_all
  have pt: "crawl_point site_env ''http://a.com'' ''a.com'' (init_state ''http://a.com'')"
    by (rule at_head[OF head_init])
  from no_url_fetched_twice[of site_env "''http://a.com''" "''a.com''"
      "init_state ''http://a.com''" s'] run pt log
  show ?thesis by blast
qed



text \<open>
C7: in every state of a crawl each key of the findings has been assigned at most once
  (given that the library does not classify the placeholder \<open>Not Found\<close> as a social
  link, which \<open>urlparse\<close> does not: it has no network location); a link that matches
  a platform already found leaves the state as it is; the keys of the findings are the
  platforms of the catalog; and each finding, in every state and in the Crawl Result, is
  \<open>Not Found\<close> or a URL that classifies as its key.
\<close>

theorem findings_first_found_wins:
  "(is_social_link env ''Not Found'' = Inr None \<and> crawl_point env base_url base_domain s \<longrightarrow>
      distinct (map fst (write_log s)))
   \<and> (social_links s p = Some v \<and> v \<noteq> ''Not Found'' \<and> is_social_link env link = Inr (Some p) \<longrightarrow>
      record_social env link s = Inr s)
   \<and> (crawl_point env base_url base_domain s \<longrightarrow>
      dom (social_links s) = set (map snd SOCIAL_DOMAINS)
      \<and> (\<forall>k v. social_links s k = Some v \<longrightarrow>
             v = ''Not Found'' \<or> is_social_link env v = Inr (Some k)))
   \<and> (crawl_site env base_url biz_name = Inr r \<longrightarrow>
      (Facebook r = ''Not Found'' \<or> is_social_link env (Facebook r) = Inr (Some ''Facebook''))
      \<and> (Instagram r = ''Not Found'' \<or> is_social_link env (Instagram r) = Inr (Some ''Instagram'')))"
proof (intro conjI impI)
  assume "is_social_link env ''Not Found'' = Inr None \<and> crawl_point env base_url base_domain s"
  then have "writes_inv s" using crawl_point_writes by blast
  then show "distinct (map fst (write_log s))" by (simp add: writes_inv_def)
next
  assume "social_links s p = Some v \<and> v \<noteq> ''Not Found'' \<and> is_social_link env link = Inr (Some p)"
  then show "record_social env link s = Inr s"
    by (simp add: record_social_def ebind_def dict_get_def)
next
  assume "crawl_point env base_url base_domain s"
  then have f: "findings_inv env s" using crawl_point_inv by blast
  from f show "dom (social_links s) = set (map snd SOCIAL_DOMAINS)"
    by (simp add: findings_inv_def SOCIAL_DOMAINS_def)
  from f show "\<forall>k v. social_links s k = Some v \<longrightarrow>
             v = ''Not Found'' \<or> is_social_link env v = Inr (Some k)"
    by (simp add: findings_inv_def)
next
  assume "crawl_site env base_url biz_name = Inr r"
  then obtain s where run: "crawl_run env base_url = Inr s"
    and res: "make_result biz_name base_url s = Inr r"
    by (rule crawl_site_cases)
  from run obtain parsed where "loop_head env base_url (netloc parsed) s"
    by (rule crawl_run_cases)
  then have "findings_inv env s" using loop_head_inv by blast
  then have v: "\<forall>k v. social_links s k = Some v \<longrightarrow>
             v = ''Not Found'' \<or> is_social_link env v = Inr (Some k)"
    by (simp add: findings_inv_def)
  from v make_result_fields(3)[OF res]
  show "Facebook r = ''Not Found'' \<or> is_social_link env (Facebook r) = Inr (Some ''Facebook'')"
    by (elim allE impE) assumption+
  from v make_result_fields(4)[OF res]
  show "Instagram r = ''Not Found'' \<or> is_social_link env (Instagram r) = Inr (Some ''Instagram'')"
    by (elim allE impE) assumption+
qed

text \<open>
C7 on the site of three pages, which has two Facebook links: the first one is kept,
  one assignment is logged, and the second link leaves the final state unchanged.
\<close>

theorem findings_first_found_wins_witness:
  "\<exists>h bd. crawl_run site_env ''http://a.com'' = Inr h
     \<and> is_social_link site_env ''Not Found'' = Inr None
     \<and> crawl_point site_env ''http://a.com'' bd h
     \<and> write_log h = [(''Facebook'', ''https://www.facebook.com/acme'')]
     \<and> distinct (map fst (write_log h))
     \<and> social_links h ''Facebook'' = Some ''https://www.facebook.com/acme''
     \<and> is_social_link site_env ''https://www.facebook.com/other'' = Inr (Some ''Facebook'')
     \<and> record_social site_env ''https://www.facebook.com/other'' h = Inr h
     \<and> dom (social_links h) = set (map snd SOCIAL_DOMAINS)
     \<and> crawl_site site_env ''http://a.com'' ''A'' =
         Inr \<lparr> Business_Name = ''A'', Website = ''http://a.com'',
               Facebook = ''https://www.facebook.com/acme'', Instagram = ''Not Found'',
               Status_Code = 200, Pages_Crawled = 3 \<rparr>
     \<and> is_social_link site_env ''https://www.facebook.com/acme'' = Inr (Some ''Facebook'')"
proof -
  have ev: "map_sum id (\<lambda>s. (write_log s, social_links s ''Facebook''))
              (crawl_run site_env ''http://a.com'') =
            Inr ([(''Facebook'', ''https://www.facebook.com/acme'')],
                 Some ''https://www.facebook.com/acme'')"
    by code_simp
  then obtain h where run: "crawl_run site_env ''http://a.com'' = Inr h"
    and wl: "write_log h = [(''Facebook'', ''https://www.facebook.com/acme'')]"
    and fb: "social_links h ''Facebook'' = Some ''https://www.facebook.com/acme''"
    by (cases "crawl_run site_env ''http://a.com''") auto
  from run obtain parsed where head: "loop_head site_env ''http://a.com'' (netloc parsed) h"
    by (rule crawl_run_cases)
  then have pt: "crawl_point site_env ''http://a.com'' (netloc parsed) h" by (rule at_head)
  have nf: "is_social_link site_env ''Not Found'' = Inr None" by code_simp
  have other: "is_social_link site_env ''https://www.facebook.com/other'' = Inr (Some ''Facebook'')"
    by code_simp
  have res: "crawl_site site_env ''http://a.com'' ''A'' =
         Inr \<lparr> Business_Name = ''A'', Website = ''http://a.com'',
               Facebook = ''https://www.facebook.com/acme'', Instagram = ''Not Found'',
               Status_Code = 200, Pages_Crawled = 3 \<rparr>"
    by code_simp
  have ne: "''https://www.facebook.com/acme'' \<noteq> ''Not Found''" by simp
  note t = findings_first_found_wins[of site_env "''http://a.com''" "netloc parsed" h
      "''Facebook''" "''https://www.facebook.com/acme''" "''https://www.facebook.com/other''"
      "''A''" "\<lparr> Business_Name = ''A'', Website = ''http://a.com'',
               Facebook = ''https://www.facebook.com/acme'', Instagram = ''Not Found'',
               Status_Code = 200, Pages_Crawled = 3 \<rparr>"]
  from t nf pt have d: "distinct (map fst (write_log h))" by blast
  from t fb ne other
  have rs: "record_social site_env ''https://www.facebook.com/other'' h = Inr h" by blast
  from t pt have dm: "dom (social_links h) = set (map snd SOCIAL_DOMAINS)" by blast
  from t res
  have cl: "is_social_link site_env ''https://www.facebook.com/acme'' = Inr (Some ''Facebook'')"
    by simp
  from run nf pt wl d fb other rs dm res cl show ?thesis by blast
qed



text \<open>
C2, as the specification states it, fails. The root URL \<open>not a url\<close> is not an
  absolute HTTP(S) URL, and its Crawl Result has one page crawled, not zero: the program
  does not validate the root URL, it tries to fetch it and counts the attempt. The root
  URL \<open>http://[\<close> is not one either, and its crawl raises in place of returning a
  result.
\<close>

theorem invalid_root_counterexample:
  "\<not> is_absolute_http_url offline_env ''not a url''
   \<and> crawl_site offline_env ''not a url'' ''A'' =
       Inr \<lparr> Business_Name = ''A'', Website = ''not a url'', Facebook = ''Not Found'',
             Instagram = ''Not Found'', Status_Code = 0, Pages_Crawled = 1 \<rparr>
   \<and> \<not> is_absolute_http_url offline_env ''http://[''
   \<and> crawl_site offline_env ''http://['' ''A'' = Inl ValueError"
  by code_simp

text \<open>
C2, amended: for every root URL that is not an absolute HTTP(S) URL, that \<open>urlparse\<close>
  accepts and whose request fails (the HTTP client rejects such a URL), the crawl returns a
  Crawl Result, with one page crawled, status 0 and both findings \<open>Not Found\<close>; and no
  Crawl Result of any crawl has zero pages crawled.
\<close>

theorem invalid_root_one_page:
  "(\<not> is_absolute_http_url env base_url \<and> urlparse env base_url = Inr parsed
      \<and> http_get env base_url = None \<longrightarrow>
      crawl_site env base_url biz_name =
        Inr \<lparr> Business_Name = biz_name, Website = base_url, Facebook = ''Not Found'',
              Instagram = ''Not Found'', Status_Code = 0, Pages_Crawled = 1 \<rparr>)
   \<and> (crawl_site env base_url biz_name = Inr r \<longrightarrow> 1 \<le> Pages_Crawled r)"
proof (intro conjI impI)
  assume "\<not> is_absolute_http_url env base_url \<and> urlparse env base_url = Inr parsed
      \<and> http_get env base_url = None"
  then show "crawl_site env base_url biz_name =
        Inr \<lparr> Business_Name = biz_name, Website = base_url, Facebook = ''Not Found'',
              Instagram = ''Not Found'', Status_Code = 0, Pages_Crawled = 1 \<rparr>"
    by (intro crawl_site_unreachable) simp_all
next
  assume "crawl_site env base_url biz_name = Inr r"
  then obtain s where run: "crawl_run env base_url = Inr s"
    and res: "make_result biz_name base_url s = Inr r"
    by (rule crawl_site_cases)
  from run obtain parsed where head: "loop_head env base_url (netloc parsed) s"
    and fin: "\<not> loop_cond s \<or> both_found s = Inr True"
    by (rule crawl_run_cases)
  from final_fetched[OF head fin] have "fetch_log s \<noteq> []" .
  then have "1 \<le> length (fetch_log s)" by (cases "fetch_log s") simp_all
  moreover from loop_head_inv[OF head] have "length (fetch_log s) = pages_crawled s"
    by (simp add: frontier_inv_def)
  ultimately show "1 \<le> Pages_Crawled r" using make_result_fields(1)[OF res] by simp
qed

text \<open>
The amended C2 at the root URL \<open>not a url\<close>.
\<close>

theorem invalid_root_one_page_witness:
  "\<not> is_absolute_http_url offline_env ''not a url''
   \<and> urlparse offline_env ''not a url'' = Inr ('''', '''')
   \<and> http_get offline_env ''not a url'' = None
   \<and> crawl_site offline_env ''not a url'' ''A'' =
       Inr \<lparr> Business_Name = ''A'', Website = ''not a url'', Facebook = ''Not Found'',
             Instagram = ''Not Found'', Status_Code = 0, Pages_Crawled = 1 \<rparr>
   \<and> (1::nat) \<le> Pages_Crawled \<lparr> Business_Name = ''A'', Website = ''not a url'',
             Facebook = ''Not Found'', Instagram = ''Not Found'',
             Status_Code = 0, Pages_Crawled = 1 \<rparr>"
proof -
  have na: "\<not> is_absolute_http_url offline_env ''not a url''" by code_simp
  have up: "urlparse offline_env ''not a url'' = Inr ('''', '''')" by code_simp
  have hg: "http_get offline_env ''not a url'' = None" by (simp add: offline_env_def)
  note t = invalid_root_one_page[of offline_env "''not a url''" "('''', '''')" "''A''"
      "\<lparr> Business_Name = ''A'', Website = ''not a url'',
             Facebook = ''Not Found'', Instagram = ''Not Found'',
             Status_Code = 0, Pages_Crawled = 1 \<rparr>"]
  from t na up hg have cs: "crawl_site offline_env ''not a url'' ''A'' =
       Inr \<lparr> Business_Name = ''A'', Website = ''not a url'', Facebook = ''Not Found'',
             Instagram = ''Not Found'', Status_Code = 0, Pages_Crawled = 1 \<rparr>" by blast
  from t cs have "(1::nat) \<le> Pages_Crawled \<lparr> Business_Name = ''A'', Website = ''not a url'',
             Facebook = ''Not Found'', Instagram = ''Not Found'',
             Status_Code = 0, Pages_Crawled = 1 \<rparr>" by blast
  with na up hg cs show ?thesis by blast
qed

end
